theory Spec2Isabelle
  imports Main "HOL-Library.Sublist"
begin

section \<open>Text, characters and the string operations of the source language\<close>

text \<open>
  A text is a \<^typ>\<open>string\<close>, one \<^typ>\<open>char\<close> per character of the Python \<^verbatim>\<open>str\<close>.
  A \<^typ>\<open>char\<close> has eight bits, so the model covers the texts whose characters are code points
  below 256; the character classes below are Python's classes cut down to that range.
\<close>

definition is_space :: "char \<Rightarrow> bool" where
  \<comment> \<open>\<^verbatim>\<open>\s\<close> of a \<^verbatim>\<open>str\<close> pattern and the characters \<^verbatim>\<open>str.strip()\<close> removes.\<close>
  "is_space c = (c \<in> set [CHR 0x09, CHR 0x0A, CHR 0x0B, CHR 0x0C, CHR 0x0D, CHR 0x1C, CHR 0x1D,
     CHR 0x1E, CHR 0x1F, CHR 0x20, CHR 0x85, CHR 0xA0])"

definition upper_chars :: string where
  "upper_chars = ''ABCDEFGHIJKLMNOPQRSTUVWXYZ'' @
     [CHR 0xC0, CHR 0xC1, CHR 0xC2, CHR 0xC3, CHR 0xC4, CHR 0xC5, CHR 0xC6, CHR 0xC7,
      CHR 0xC8, CHR 0xC9, CHR 0xCA, CHR 0xCB, CHR 0xCC, CHR 0xCD, CHR 0xCE, CHR 0xCF,
      CHR 0xD0, CHR 0xD1, CHR 0xD2, CHR 0xD3, CHR 0xD4, CHR 0xD5, CHR 0xD6,
      CHR 0xD8, CHR 0xD9, CHR 0xDA, CHR 0xDB, CHR 0xDC, CHR 0xDD, CHR 0xDE]"

definition lower_chars :: string where
  "lower_chars = ''abcdefghijklmnopqrstuvwxyz'' @
     [CHR 0xE0, CHR 0xE1, CHR 0xE2, CHR 0xE3, CHR 0xE4, CHR 0xE5, CHR 0xE6, CHR 0xE7,
      CHR 0xE8, CHR 0xE9, CHR 0xEA, CHR 0xEB, CHR 0xEC, CHR 0xED, CHR 0xEE, CHR 0xEF,
      CHR 0xF0, CHR 0xF1, CHR 0xF2, CHR 0xF3, CHR 0xF4, CHR 0xF5, CHR 0xF6,
      CHR 0xF8, CHR 0xF9, CHR 0xFA, CHR 0xFB, CHR 0xFC, CHR 0xFD, CHR 0xFE]"

definition to_lower :: "char \<Rightarrow> char" where
  "to_lower c = (case map_of (zip upper_chars lower_chars) c of Some l \<Rightarrow> l | None \<Rightarrow> c)"

definition lower :: "string \<Rightarrow> string" where
  \<comment> \<open>\<^verbatim>\<open>str.lower()\<close>\<close>
  "lower s = map to_lower s"

definition is_word :: "char \<Rightarrow> bool" where
  \<comment> \<open>\<^verbatim>\<open>\w\<close>: alphanumeric or the underscore.\<close>
  "is_word c = (let n = (of_char c :: nat) in
     (48 \<le> n \<and> n \<le> 57) \<or> (65 \<le> n \<and> n \<le> 90) \<or> n = 95 \<or> (97 \<le> n \<and> n \<le> 122) \<or>
     n \<in> set [170, 178, 179, 181, 185, 186, 188, 189, 190] \<or>
     (192 \<le> n \<and> n \<noteq> 215 \<and> n \<noteq> 247))"

definition slice :: "string \<Rightarrow> nat \<Rightarrow> nat \<Rightarrow> string" where
  \<comment> \<open>\<^verbatim>\<open>s[i:j]\<close> for \<open>0 \<le> i\<close>, \<open>0 \<le> j\<close>; empty when \<open>j \<le> i\<close>.\<close>
  "slice s i j = take (j - i) (drop i s)"

primrec find_in :: "string \<Rightarrow> string \<Rightarrow> nat \<Rightarrow> int" where
  "find_in sub [] i = (if sub = [] then int i else - 1)"
| "find_in sub (x # xs) i = (if prefix sub (x # xs) then int i else find_in sub xs (Suc i))"

definition str_find :: "string \<Rightarrow> string \<Rightarrow> nat \<Rightarrow> int" where
  \<comment> \<open>\<^verbatim>\<open>s.find(sub, start)\<close>: the lowest index from \<open>start\<close> on where \<open>sub\<close> begins, or \<open>-1\<close>.\<close>
  "str_find s sub start = (if length s < start then - 1 else find_in sub (drop start s) start)"

definition strip :: "string \<Rightarrow> string" where
  \<comment> \<open>\<^verbatim>\<open>s.strip()\<close>\<close>
  "strip s = rev (dropWhile is_space (rev (dropWhile is_space s)))"

fun split_on :: "char \<Rightarrow> string \<Rightarrow> string list" where
  \<comment> \<open>\<^verbatim>\<open>s.split(c)\<close> for a one-character separator.\<close>
  "split_on c [] = [[]]"
| "split_on c (x # xs) =
     (if x = c then [] # split_on c xs
      else (case split_on c xs of p # ps \<Rightarrow> (x # p) # ps | [] \<Rightarrow> [[x]]))"

fun join :: "string \<Rightarrow> string list \<Rightarrow> string" where
  \<comment> \<open>\<^verbatim>\<open>sep.join(items)\<close>\<close>
  "join sep [] = []"
| "join sep [x] = x"
| "join sep (x # y # ys) = x @ sep @ join sep (y # ys)"

section \<open>Regular expressions\<close>

text \<open>
  The patterns of the source are written as syntax trees and matched by a backtracking
  matcher that tries the alternatives in the order Python's \<^verbatim>\<open>re\<close> does: the left branch
  of an alternation first, one more repetition first for a greedy quantifier, one fewer first
  for a lazy one. In the source every quantifier stands behind a single character or character
  class, so \<open>Rep\<close> repeats a class. The dot stands for any character: every pattern of the
  source that has a dot is compiled with \<^verbatim>\<open>re.DOTALL\<close>. The only other flag of the source,
  \<^verbatim>\<open>re.IGNORECASE\<close>, is the matcher's first argument.
\<close>

datatype cls = Ch char | Dot | Space | OneOf "cls list" | NoneOf "cls list"

fun cls_ok :: "bool \<Rightarrow> cls \<Rightarrow> char \<Rightarrow> bool" where
  "cls_ok ic (Ch c) x = (if ic then to_lower x = to_lower c else x = c)"
| "cls_ok ic Dot x = True"
| "cls_ok ic Space x = is_space x"
| "cls_ok ic (OneOf cs) x = list_ex (\<lambda>c. cls_ok ic c x) cs"
| "cls_ok ic (NoneOf cs) x = (\<not> list_ex (\<lambda>c. cls_ok ic c x) cs)"

datatype re =
    Lit string                      \<comment> \<open>the characters of a literal, in a row\<close>
  | One cls                         \<comment> \<open>one character of a class\<close>
  | Rep cls nat "nat option" bool   \<comment> \<open>class, least count, greatest count, greedy\<close>
  | Cat "re list"
  | Alt re re
  | Grp nat re                      \<comment> \<open>capturing group with its number\<close>
  | Ahead re                        \<comment> \<open>\<^verbatim>\<open>(?=...)\<close>\<close>
  | Bos                             \<comment> \<open>\<^verbatim>\<open>^\<close> without \<^verbatim>\<open>re.MULTILINE\<close>\<close>
  | Eos                             \<comment> \<open>\<^verbatim>\<open>$\<close> without \<^verbatim>\<open>re.MULTILINE\<close>\<close>
  | Wordb                           \<comment> \<open>\<^verbatim>\<open>\b\<close>\<close>

abbreviation many :: "cls \<Rightarrow> re" where "many c \<equiv> Rep c 0 None True"
abbreviation many1 :: "cls \<Rightarrow> re" where "many1 c \<equiv> Rep c 1 None True"
abbreviation maybe :: "cls \<Rightarrow> re" where "maybe c \<equiv> Rep c 0 (Some 1) True"
abbreviation many_lazy :: "cls \<Rightarrow> re" where "many_lazy c \<equiv> Rep c 0 None False"
abbreviation not_gt :: cls where "not_gt \<equiv> NoneOf [Ch (CHR ''>'')]"
abbreviation not_quote :: cls where "not_quote \<equiv> NoneOf [Ch (CHR 0x22)]"

text \<open>
  What is still to be matched is a stack of frames: a pattern, the end of a group (with the
  text that was left when the group began), or the check that the match is not empty
  (\<open>NotAt n\<close> fails when \<open>n\<close> characters are left). A matcher state is the character before
  the current position (\<open>None\<close> at the start of the text), the text that is left, and the
  groups captured so far, the latest first.
\<close>

datatype frame = R re | GrpEnd nat string | NotAt nat

type_synonym st = "char option \<times> string \<times> (nat \<times> string) list"

fun rsz :: "re \<Rightarrow> nat" where
  "rsz (Lit s) = length s + 1"
| "rsz (Cat rs) = sum_list (map rsz rs) + length rs + 1"
| "rsz (Alt a b) = rsz a + rsz b + 1"
| "rsz (Grp g r) = rsz r + 2"
| "rsz (Ahead r) = rsz r + 1"
| "rsz _ = 1"

fun fsz :: "frame \<Rightarrow> nat" where
  "fsz (R r) = rsz r"
| "fsz _ = 1"

function (sequential) mrun :: "bool \<Rightarrow> frame list \<Rightarrow> st \<Rightarrow> st option" where
  "mrun ic [] s = Some s"
| "mrun ic (NotAt n # k) (p, rest, caps) = (if length rest = n then None else mrun ic k (p, rest, caps))"
| "mrun ic (GrpEnd g r0 # k) (p, rest, caps) =
     mrun ic k (p, rest, (g, take (length r0 - length rest) r0) # caps)"
| "mrun ic (R (Lit []) # k) s = mrun ic k s"
| "mrun ic (R (Lit (c # cs)) # k) (p, rest, caps) =
     (case rest of [] \<Rightarrow> None
      | x # xs \<Rightarrow> if cls_ok ic (Ch c) x then mrun ic (R (Lit cs) # k) (Some x, xs, caps) else None)"
| "mrun ic (R (One c) # k) (p, rest, caps) =
     (case rest of [] \<Rightarrow> None
      | x # xs \<Rightarrow> if cls_ok ic c x then mrun ic k (Some x, xs, caps) else None)"
| "mrun ic (R (Rep c lo hi g) # k) (p, rest, caps) =
     (if g then
        (case (case rest of [] \<Rightarrow> None
               | x # xs \<Rightarrow> if hi \<noteq> Some 0 \<and> cls_ok ic c x
                   then mrun ic (R (Rep c (lo - 1) (map_option (\<lambda>h. h - 1) hi) g) # k) (Some x, xs, caps)
                   else None) of
           Some s' \<Rightarrow> Some s'
         | None \<Rightarrow> if lo = 0 then mrun ic k (p, rest, caps) else None)
      else
        (case (if lo = 0 then mrun ic k (p, rest, caps) else None) of
           Some s' \<Rightarrow> Some s'
         | None \<Rightarrow> (case rest of [] \<Rightarrow> None
               | x # xs \<Rightarrow> if hi \<noteq> Some 0 \<and> cls_ok ic c x
                   then mrun ic (R (Rep c (lo - 1) (map_option (\<lambda>h. h - 1) hi) g) # k) (Some x, xs, caps)
                   else None)))"
| "mrun ic (R (Cat []) # k) s = mrun ic k s"
| "mrun ic (R (Cat (r # rs)) # k) s = mrun ic (R r # R (Cat rs) # k) s"
| "mrun ic (R (Alt a b) # k) s =
     (case mrun ic (R a # k) s of Some s' \<Rightarrow> Some s' | None \<Rightarrow> mrun ic (R b # k) s)"
| "mrun ic (R (Grp g r) # k) (p, rest, caps) = mrun ic (R r # GrpEnd g rest # k) (p, rest, caps)"
| "mrun ic (R (Ahead r) # k) (p, rest, caps) =
     (case mrun ic [R r] (p, rest, caps) of None \<Rightarrow> None
      | Some (p', rest', caps') \<Rightarrow> mrun ic k (p, rest, caps'))"
| "mrun ic (R Bos # k) (p, rest, caps) = (if p = None then mrun ic k (p, rest, caps) else None)"
| "mrun ic (R Eos # k) (p, rest, caps) =
     (if rest = [] \<or> rest = [CHR 0x0A] then mrun ic k (p, rest, caps) else None)"
| "mrun ic (R Wordb # k) (p, rest, caps) =
     (if (case rest of [] \<Rightarrow> False | x # xs \<Rightarrow> is_word x) \<noteq>
         (case p of None \<Rightarrow> False | Some c \<Rightarrow> is_word c)
      then mrun ic k (p, rest, caps) else None)"
  by pat_completeness auto
termination
  by (relation "measures [\<lambda>(ic, k, s). sum_list (map fsz k),
        \<lambda>(ic, k, (p, rest, caps)). length rest]") auto

text \<open>A match object: \<^verbatim>\<open>m.start()\<close>, \<^verbatim>\<open>m.end()\<close>, \<^verbatim>\<open>m.group()\<close> and the numbered groups.\<close>

record rmatch =
  m_start :: nat
  m_end :: nat
  m_text :: string
  m_caps :: "(nat \<times> string) list"

definition group :: "rmatch \<Rightarrow> nat \<Rightarrow> string" where
  \<comment> \<open>A group that took no part in the match reads as the empty text, as in \<^verbatim>\<open>findall\<close>
      and in a replacement template.\<close>
  "group mt n = (if n = 0 then m_text mt
                 else (case map_of (m_caps mt) n of Some s \<Rightarrow> s | None \<Rightarrow> []))"

definition try_at :: "bool \<Rightarrow> re \<Rightarrow> bool \<Rightarrow> nat \<Rightarrow> char option \<Rightarrow> string \<Rightarrow> rmatch option" where
  \<comment> \<open>One attempt at position \<open>pos\<close>, where \<open>rest\<close> begins; \<open>adv\<close> refuses the empty match.\<close>
  "try_at ic r adv pos p rest =
     (case mrun ic (R r # (if adv then [NotAt (length rest)] else [])) (p, rest, []) of
        None \<Rightarrow> None
      | Some (p', rest', caps) \<Rightarrow>
          Some \<lparr>m_start = pos, m_end = pos + (length rest - length rest'),
                m_text = take (length rest - length rest') rest, m_caps = caps\<rparr>)"

fun search_from :: "bool \<Rightarrow> re \<Rightarrow> bool \<Rightarrow> nat \<Rightarrow> char option \<Rightarrow> string \<Rightarrow> rmatch option" where
  \<comment> \<open>The leftmost match from \<open>pos\<close> on; only an attempt at \<open>pos\<close> itself must advance.\<close>
  "search_from ic r adv pos p rest =
     (case try_at ic r adv pos p rest of
        Some mt \<Rightarrow> Some mt
      | None \<Rightarrow> (case rest of [] \<Rightarrow> None
                 | x # xs \<Rightarrow> search_from ic r False (Suc pos) (Some x) xs))"

declare search_from.simps [simp del]

definition re_search :: "bool \<Rightarrow> re \<Rightarrow> string \<Rightarrow> rmatch option" where
  "re_search ic r s = search_from ic r False 0 None s"

definition re_match :: "bool \<Rightarrow> re \<Rightarrow> string \<Rightarrow> rmatch option" where
  "re_match ic r s = try_at ic r False 0 None s"

subsection \<open>A match never gives text back\<close>

text \<open>
  The matcher's equations are unfolded by name: as rewrite rules they would unfold a
  repetition without end. A successful match leaves a suffix of the text that was left, and
  below a \<open>NotAt n\<close> frame it does not leave \<open>n\<close> characters.
\<close>

declare mrun.simps [simp del]

lemma mrun_result: "mrun ic k s = Some s' \<Longrightarrow> length (fst (snd s')) \<le> length (fst (snd s)) \<and>
    (k \<noteq> [] \<longrightarrow> last k = NotAt n \<longrightarrow> length (fst (snd s')) \<noteq> n)"
proof (induction ic k s arbitrary: s' rule: mrun.induct)
  case (1 ic s) then show ?case by (simp add: mrun.simps(1))
next
  case (2 ic n' k p rest caps) then show ?case by (auto simp add: mrun.simps(1,2) split: if_splits)
next
  case (3 ic g r0 k p rest caps) then show ?case by (simp add: mrun.simps(3))
next
  case (4 ic k s) then show ?case by (simp add: mrun.simps(4))
next
  case (5 ic c cs k p rest caps)
  from "5.prems" obtain x xs where r: "rest = x # xs" and ok: "cls_ok ic (Ch c) x"
    and mm: "mrun ic (R (Lit cs) # k) (Some x, xs, caps) = Some s'"
    by (auto simp add: mrun.simps(5) simp del: cls_ok.simps split: list.splits if_splits)
  from "5.IH"[OF r ok mm] r show ?case by simp
next
  case (6 ic c k p rest caps)
  from "6.prems" obtain x xs where r: "rest = x # xs" and ok: "cls_ok ic c x"
    and mm: "mrun ic k (Some x, xs, caps) = Some s'"
    by (auto simp add: mrun.simps(6) split: list.splits if_splits)
  from "6.IH"[OF r ok mm] r show ?case by simp
next
  case (7 ic c lo hi g k p rest caps)
  let ?more = "case rest of [] \<Rightarrow> None
               | x # xs \<Rightarrow> if hi \<noteq> Some 0 \<and> cls_ok ic c x
                   then mrun ic (R (Rep c (lo - 1) (map_option (\<lambda>h. h - 1) hi) g) # k) (Some x, xs, caps)
                   else None"
  let ?stop = "if lo = 0 then mrun ic k (p, rest, caps) else None"
  have more: "length (fst (snd t)) \<le> length rest \<and> (last (R (Rep c lo hi g) # k) = NotAt n \<longrightarrow> length (fst (snd t)) \<noteq> n)"
    if g: "\<not> g \<Longrightarrow> ?stop = None" and t: "?more = Some t" for t
  proof -
    from t obtain x xs where r: "rest = x # xs" and ok: "hi \<noteq> Some 0 \<and> cls_ok ic c x"
      and mm: "mrun ic (R (Rep c (lo - 1) (map_option (\<lambda>h. h - 1) hi) g) # k) (Some x, xs, caps) = Some t"
      by (auto split: list.splits if_splits)
    show ?thesis
    proof (cases g)
      case True
      from "7.IH"(1)[OF True r ok mm] r show ?thesis by simp
    next
      case False
      from "7.IH"(4)[OF False g[OF False] r ok mm] r show ?thesis by simp
    qed
  qed
  have stop: "length (fst (snd t)) \<le> length rest \<and> (last (R (Rep c lo hi g) # k) = NotAt n \<longrightarrow> length (fst (snd t)) \<noteq> n)"
    if g: "g \<Longrightarrow> ?more = None" and t: "?stop = Some t" for t
  proof -
    from t have l0: "lo = 0" and mk: "mrun ic k (p, rest, caps) = Some t"
      by (auto split: if_splits)
    show ?thesis
    proof (cases g)
      case True
      from "7.IH"(2)[OF True g[OF True] l0 mk] show ?thesis by simp
    next
      case False
      from "7.IH"(3)[OF False l0 mk] show ?thesis by simp
    qed
  qed
  have eq: "(if g then (case ?more of Some s \<Rightarrow> Some s | None \<Rightarrow> ?stop)
             else (case ?stop of Some s \<Rightarrow> Some s | None \<Rightarrow> ?more)) = Some s'"
    unfolding mrun.simps(7)[symmetric] by (rule "7.prems")
  show ?case
  proof (cases g)
    case True
    with eq have pr: "(case ?more of Some s \<Rightarrow> Some s | None \<Rightarrow> ?stop) = Some s'"
      by (simp only: if_True)
    show ?thesis
    proof (cases ?more)
      case None
      with pr have "?stop = Some s'" by simp
      from stop[OF None this] show ?thesis by simp
    next
      case (Some t)
      with pr have "t = s'" by simp
      with more[of t] Some True show ?thesis by simp
    qed
  next
    case False
    with eq have pr: "(case ?stop of Some s \<Rightarrow> Some s | None \<Rightarrow> ?more) = Some s'"
      by (simp only: if_False)
    show ?thesis
    proof (cases ?stop)
      case None
      with pr have "?more = Some s'" by simp
      from more[OF None this] show ?thesis by simp
    next
      case (Some t)
      with pr have "t = s'" by simp
      with stop[of t] Some False show ?thesis by simp
    qed
  qed
next
  case (8 ic k s) then show ?case by (simp add: mrun.simps(8))
next
  case (9 ic r rs k s) then show ?case by (simp add: mrun.simps(9))
next
  case (10 ic a b k s) then show ?case by (simp add: mrun.simps(10) split: option.splits)
next
  case (11 ic g r k p rest caps) then show ?case by (simp add: mrun.simps(11))
next
  case (12 ic r k p rest caps)
  from "12.prems" obtain p' rest' caps' where i: "mrun ic [R r] (p, rest, caps) = Some (p', rest', caps')"
    and c: "mrun ic k (p, rest, caps') = Some s'"
    by (auto simp add: mrun.simps(12) split: option.splits)
  from "12.IH"(2)[OF i, of p' "(rest', caps')" rest' caps' s'] c show ?case by simp
next
  case (13 ic k p rest caps) then show ?case by (simp add: mrun.simps(13) split: if_splits)
next
  case (14 ic k p rest caps) then show ?case by (simp add: mrun.simps(14) split: if_splits)
next
  case (15 ic k p rest caps) then show ?case by (simp add: mrun.simps(15) split: if_splits)
qed



lemma try_at_bounds:
  assumes "try_at ic r adv pos p rest = Some mt"
  shows "m_start mt = pos \<and> pos \<le> m_end mt \<and> m_end mt \<le> pos + length rest \<and>
         (adv \<longrightarrow> pos < m_end mt)"
proof -
  from assms obtain p' rest' caps where
    mm: "mrun ic (R r # (if adv then [NotAt (length rest)] else [])) (p, rest, []) = Some (p', rest', caps)"
    and mt: "mt = \<lparr>m_start = pos, m_end = pos + (length rest - length rest'),
                m_text = take (length rest - length rest') rest, m_caps = caps\<rparr>"
    by (auto simp: try_at_def split: option.splits)
  from mrun_result[OF mm, of "length rest"] have "length rest' \<le> length rest"
    and "adv \<longrightarrow> length rest' \<noteq> length rest" by auto
  with mt show ?thesis by auto
qed

lemma search_from_bounds:
  "search_from ic r adv pos p rest = Some mt \<Longrightarrow>
     pos \<le> m_start mt \<and> m_start mt \<le> m_end mt \<and> m_end mt \<le> pos + length rest \<and>
     (adv \<longrightarrow> m_start mt = pos \<longrightarrow> pos < m_end mt)"
proof (induction rest arbitrary: adv pos p)
  case Nil
  then have "try_at ic r adv pos p [] = Some mt"
    by (simp add: search_from.simps[of _ _ _ _ _ "[]"] split: option.splits)
  from try_at_bounds[OF this] show ?case by simp
next
  case (Cons x xs)
  show ?case
  proof (cases "try_at ic r adv pos p (x # xs)")
    case (Some a)
    with Cons.prems have "a = mt" by (simp add: search_from.simps[of _ _ _ _ _ "x # xs"])
    with try_at_bounds[OF Some] show ?thesis by simp
  next
    case None
    with Cons.prems have "search_from ic r False (Suc pos) (Some x) xs = Some mt"
      by (simp add: search_from.simps[of _ _ _ _ _ "x # xs"])
    from Cons.IH[OF this] show ?thesis by simp
  qed
qed

function all_from :: "bool \<Rightarrow> re \<Rightarrow> bool \<Rightarrow> nat \<Rightarrow> char option \<Rightarrow> string \<Rightarrow> rmatch list" where
  "all_from ic r adv pos p rest =
     (case search_from ic r adv pos p rest of
        None \<Rightarrow> []
      | Some mt \<Rightarrow>
          mt # all_from ic r (m_end mt = m_start mt) (m_end mt)
                 (case rev (take (m_end mt - pos) rest) of [] \<Rightarrow> p | c # cs \<Rightarrow> Some c)
                 (drop (m_end mt - pos) rest))"
  by pat_completeness auto
termination
proof (relation "measure (\<lambda>(ic, r, adv, pos, p, rest). 2 * length rest + (if adv then 0 else 1))",
       goal_cases)
  case 1
  show ?case by simp
next
  case (2 ic r adv pos p rest mt)
  from search_from_bounds[OF 2] show ?case by (auto split: if_splits)
qed


declare all_from.simps [simp del]

definition re_finditer :: "bool \<Rightarrow> re \<Rightarrow> string \<Rightarrow> rmatch list" where
  \<comment> \<open>The non-overlapping matches from left to right (\<^verbatim>\<open>re.finditer\<close>, \<^verbatim>\<open>re.findall\<close>).\<close>
  "re_finditer ic r s = all_from ic r False 0 None s"

fun subst :: "(rmatch \<Rightarrow> string) \<Rightarrow> string \<Rightarrow> nat \<Rightarrow> rmatch list \<Rightarrow> string" where
  "subst repl s i [] = drop i s"
| "subst repl s i (mt # ms) = slice s i (m_start mt) @ repl mt @ subst repl s (m_end mt) ms"

definition re_sub :: "bool \<Rightarrow> re \<Rightarrow> (rmatch \<Rightarrow> string) \<Rightarrow> string \<Rightarrow> string" where
  \<comment> \<open>\<^verbatim>\<open>re.sub(pattern, repl, s)\<close>; a replacement template is the function that builds it.\<close>
  "re_sub ic r repl s = subst repl s 0 (re_finditer ic r s)"

section \<open>Paths\<close>

text \<open>
  A path is the list of its parts (\<^verbatim>\<open>Path.parts\<close>). The site root, which the source computes
  once from the location of the script, is a parameter of the functions that use it.
\<close>

type_synonym path = "string list"

datatype error = ValueError

definition relative_to :: "path \<Rightarrow> path \<Rightarrow> error + path" where
  \<comment> \<open>\<^verbatim>\<open>p.relative_to(root)\<close> raises \<^verbatim>\<open>ValueError\<close> for a path that is not below \<open>root\<close>.\<close>
  "relative_to p root = (if prefix root p then Inr (drop (length root) p) else Inl ValueError)"

definition path_str :: "path \<Rightarrow> string" where
  \<comment> \<open>\<^verbatim>\<open>str(p)\<close> of a POSIX path: the parts joined by slashes, after the root part if there is one.\<close>
  "path_str p = (case p of [] \<Rightarrow> ''.''
                 | a # ps \<Rightarrow> if a = ''/'' then a @ join ''/'' ps else join ''/'' (a # ps))"

definition NAV_ITEMS :: "(string \<times> string) list" where
  "NAV_ITEMS = [(''Home'', ''index.html''), (''What'', ''what.html''), (''Who'', ''who.html''),
     (''Why'', ''why.html''), (''Headaches'', ''headaches/''),
     (''Pawlet Box'', ''pog/the_pawlet_box/'')]"

definition relative_root :: "path \<Rightarrow> path \<Rightarrow> error + string" where
  "relative_root site_root file_path =
     (case relative_to file_path site_root of
        Inl e \<Rightarrow> Inl e
      | Inr rel \<Rightarrow>
          (let depth = int (length rel) - 1 in
           if depth = 0 then Inr [] else Inr (concat (replicate (nat depth) ''../''))))"

definition get_active_nav :: "path \<Rightarrow> path \<Rightarrow> error + string" where
  "get_active_nav site_root file_path =
     (case relative_to file_path site_root of
        Inl e \<Rightarrow> Inl e
      | Inr rel_parts \<Rightarrow>
          (let rel = path_str rel_parts in
           if rel = ''index.html'' then Inr ''index.html''
           else if prefix ''what'' rel then Inr ''what.html''
           else if prefix ''who'' rel then Inr ''who.html''
           else if prefix ''why'' rel then Inr ''why.html''
           else if prefix ''headaches/'' rel \<or> prefix ''migraines/'' rel \<or> prefix ''damage/'' rel
             then Inr ''headaches/''
           else if prefix ''pog/'' rel then Inr ''pog/the_pawlet_box/''
           else Inr []))"

section \<open>Extraction\<close>

definition title_re :: re where
  \<comment> \<open>\<^verbatim>\<open><title[^>]*>(.*?)</title>\<close>\<close>
  "title_re = Cat [Lit ''<title'', many not_gt, Lit ''>'', Grp 1 (many_lazy Dot), Lit ''</title>'']"

definition extract_title :: "string \<Rightarrow> string" where
  "extract_title html =
     (case re_search True title_re html of
        None \<Rightarrow> ''Mighty Cheese''
      | Some mt \<Rightarrow>
          (let raw = strip (group mt 1); parts = map strip (split_on (CHR ''|'') raw) in
           case parts of [] \<Rightarrow> ''Mighty Cheese'' | p # ps \<Rightarrow> p))"

lemma find_in_bounds:
  "find_in sub xs i \<noteq> - 1 \<Longrightarrow>
     int i \<le> find_in sub xs i \<and> find_in sub xs i + int (length sub) \<le> int (i + length xs)"
proof (induction xs arbitrary: i)
  case Nil
  then show ?case by (simp split: if_splits)
next
  case (Cons x xs)
  show ?case
  proof (cases "prefix sub (x # xs)")
    case True
    then have "length sub \<le> length (x # xs)" by (rule prefix_length_le)
    with True show ?thesis by simp
  next
    case False
    with Cons.prems have "find_in sub xs (Suc i) \<noteq> - 1" by simp
    from Cons.IH[OF this] False show ?thesis by simp
  qed
qed

lemma str_find_bounds:
  "str_find s sub start \<noteq> - 1 \<Longrightarrow>
     int start \<le> str_find s sub start \<and> str_find s sub start + int (length sub) \<le> int (length s)"
proof -
  assume a: "str_find s sub start \<noteq> - 1"
  then have le: "start \<le> length s" by (simp add: str_find_def split: if_splits)
  with a have "find_in sub (drop start s) start \<noteq> - 1" by (simp add: str_find_def)
  from find_in_bounds[OF this] le show ?thesis by (simp add: str_find_def)
qed

text \<open>
  The loop of \<^verbatim>\<open>extract_div_content\<close>; its state is \<open>depth\<close> and \<open>pos\<close>. Leaving the loop
  (by its condition or by \<^verbatim>\<open>break\<close>) reaches the final \<^verbatim>\<open>return html[start_pos:], len(html)\<close>.
\<close>

function div_scan :: "string \<Rightarrow> nat \<Rightarrow> nat \<Rightarrow> nat \<Rightarrow> string \<times> nat" where
  "div_scan html start_pos depth pos =
     (if 0 < depth \<and> pos < length html then
        (let next_open = str_find html ''<div'' pos; next_close = str_find html ''</div>'' pos in
         if next_close = - 1 then (drop start_pos html, length html)
         else if next_open \<noteq> - 1 \<and> next_open < next_close
           then div_scan html start_pos (depth + 1) (nat (next_open + 4))
         else if depth - 1 = 0
           then (slice html start_pos (nat next_close), nat (next_close + 6))
         else div_scan html start_pos (depth - 1) (nat (next_close + 6)))
      else (drop start_pos html, length html))"
  by pat_completeness auto
termination
proof (relation "measure (\<lambda>(html, start_pos, depth, pos). length html - pos)", goal_cases)
  case 1
  show ?case by simp
next
  case (2 html start_pos depth pos next_open next_close)
  then have "str_find html ''<div'' pos \<noteq> - 1" by simp
  from str_find_bounds[OF this] 2 show ?case by simp linarith
next
  case (3 html start_pos depth pos next_open next_close)
  then have "str_find html ''</div>'' pos \<noteq> - 1" by simp
  from str_find_bounds[OF this] 3 show ?case by simp linarith
qed

declare div_scan.simps [simp del]

definition extract_div_content :: "string \<Rightarrow> nat \<Rightarrow> string \<times> nat" where
  "extract_div_content html start_pos = div_scan html start_pos 1 start_pos"

definition main_content_re :: re where
  \<comment> \<open>\<^verbatim>\<open><div\s+id="main-content"[^>]*>\<close>\<close>
  \<open>main_content_re = Cat [Lit ''<div'', many1 Space, Lit ''id="main-content"'', many not_gt, Lit ''>'']\<close>

definition extract_main_content :: "string \<Rightarrow> string" where
  "extract_main_content html =
     (case re_search True main_content_re html of
        None \<Rightarrow> []
      | Some mt \<Rightarrow> fst (extract_div_content html (m_end mt)))"

definition index_re :: re where
  \<comment> \<open>\<^verbatim>\<open><div\s+id="index"\s+class="(?:general|photogrid)-index">\<close>\<close>
  \<open>index_re = Cat [Lit ''<div'', many1 Space, Lit ''id="index"'', many1 Space, Lit ''class="'',
     Alt (Lit ''general'') (Lit ''photogrid''), Lit ''-index">'']\<close>

definition trailing_comment_re :: re where
  \<comment> \<open>\<^verbatim>\<open>^\s*<!--[^>]*-->\<close>\<close>
  "trailing_comment_re = Cat [Bos, many Space, Lit ''<!--'', many not_gt, Lit ''-->'']"

definition extract_index_section :: "string \<Rightarrow> string \<times> string \<times> string" where
  "extract_index_section content =
     (case re_search False index_re content of
        None \<Rightarrow> (content, [], [])
      | Some mt \<Rightarrow>
          (let before = take (m_start mt) content;
               (idx_inner, end_pos) = extract_div_content content (m_end mt);
               rest = drop end_pos content;
               rest = re_sub False trailing_comment_re (\<lambda>mt. []) rest
           in (before, idx_inner, rest)))"

section \<open>The index transformer\<close>

definition thumbnail_re :: re where
  \<comment> \<open>\<^verbatim>\<open><a\s+href="([^"]+)">\s*<img[^>]*\bsrc="([^"]+)"[^>]*\balt="([^"]*)"[^>]*/?\s*>\s*</a>\<close>\<close>
  \<open>thumbnail_re = Cat [Lit ''<a'', many1 Space, Lit ''href="'', Grp 1 (many1 not_quote), Lit ''">'',
     many Space, Lit ''<img'', many not_gt, Wordb, Lit ''src="'', Grp 2 (many1 not_quote), Lit ''"'',
     many not_gt, Wordb, Lit ''alt="'', Grp 3 (many not_quote), Lit ''"'', many not_gt,
     maybe (Ch (CHR ''/'')), many Space, Lit ''>'', many Space, Lit ''</a>'']\<close>

definition entry_re :: re where
  \<comment> \<open>\<^verbatim>\<open><h3[^>]*><a\s+href="([^"]+)">(.*?)</a></h3>(.*?)(?=<h3|$)\<close>\<close>
  \<open>entry_re = Cat [Lit ''<h3'', many not_gt, Lit ''><a'', many1 Space, Lit ''href="'',
     Grp 1 (many1 not_quote), Lit ''">'', Grp 2 (many_lazy Dot), Lit ''</a></h3>'',
     Grp 3 (many_lazy Dot), Ahead (Alt (Lit ''<h3'') Eos)]\<close>

definition tag_re :: re where
  \<comment> \<open>\<^verbatim>\<open><[^>]+>\<close>\<close>
  "tag_re = Cat [Lit ''<'', many1 not_gt, Lit ''>'']"

definition summary_re :: re where
  \<comment> \<open>\<^verbatim>\<open>class="article-summary"[^>]*>(.*?)</div>\<close>\<close>
  \<open>summary_re = Cat [Lit ''class="article-summary"'', many not_gt, Lit ''>'',
     Grp 1 (many_lazy Dot), Lit ''</div>'']\<close>

definition thumbnails :: "string \<Rightarrow> (string \<times> string \<times> string) list" where
  \<comment> \<open>\<^verbatim>\<open>re.findall\<close> with three groups: the list of \<open>(href, src, alt)\<close>.\<close>
  "thumbnails idx_inner =
     map (\<lambda>mt. (group mt 1, group mt 2, group mt 3)) (re_finditer False thumbnail_re idx_inner)"

definition entries :: "string \<Rightarrow> rmatch list" where
  "entries idx_inner = re_finditer False entry_re idx_inner"

definition gallery_item :: "string \<times> string \<times> string \<Rightarrow> string" where
  \<open>gallery_item t = (case t of (href, src, alt) \<Rightarrow>
     ''<div class="gallery-item">'' @
     ''<a href="'' @ href @ ''"><img src="'' @ src @ ''" alt="'' @ alt @ ''" loading="lazy" /></a>'' @
     ''</div>'')\<close>

definition index_item :: "rmatch \<Rightarrow> string" where
  \<open>index_item entry =
     (let href = group entry 1;
          title_html = group entry 2;
          rest = group entry 3;
          title = strip (re_sub False tag_re (\<lambda>mt. []) title_html);
          summary = (case re_search False summary_re rest of
                       Some summary_match \<Rightarrow> strip (group summary_match 1)
                     | None \<Rightarrow> []);
          li = ''<li><a href="'' @ href @ ''">'' @ title @ ''</a>'';
          li = (if summary \<noteq> [] then li @ ''\<newline><div class="summary">'' @ summary @ ''</div>''
                else li)
      in li @ ''</li>'')\<close>

definition transform_gallery_index :: "string \<Rightarrow> string" where
  \<open>transform_gallery_index idx_inner =
     (if thumbnails idx_inner \<noteq> [] then
        ''<div class="gallery-grid">\<newline>'' @
          join ''\<newline>'' (map gallery_item (thumbnails idx_inner)) @ ''\<newline></div>''
      else if entries idx_inner = [] then []
      else ''<ul class="index-list">\<newline>'' @
          join ''\<newline>'' (map index_item (entries idx_inner)) @ ''\<newline></ul>'')\<close>

section \<open>The div rebalancer\<close>

definition open_div_re :: re where
  \<comment> \<open>\<^verbatim>\<open><div[\s>]\<close>\<close>
  "open_div_re = Cat [Lit ''<div'', One (OneOf [Space, Ch (CHR ''>'')])]"

definition close_div_re :: re where
  \<comment> \<open>\<^verbatim>\<open></div\s*>\<close>\<close>
  "close_div_re = Cat [Lit ''</div'', many Space, Lit ''>'']"

text \<open>
  The loop of \<^verbatim>\<open>balance_divs\<close> over \<open>depth\<close>, \<open>pos\<close> and the list \<open>result\<close> of pieces.
  When no \<^verbatim>\<open>>\<close> follows an opening tag, \<^verbatim>\<open>html.find('>', pos)\<close> is \<open>-1\<close>, so \<open>end\<close> is 0 and
  the scan goes back to the start of the text; the loop may then run forever, which is the
  value \<open>None\<close>.
\<close>

partial_function (option) balance_loop :: "string \<Rightarrow> nat \<Rightarrow> nat \<Rightarrow> string list \<Rightarrow> string list option" where
  "balance_loop html depth pos result =
     (if pos < length html then
        (case re_match False open_div_re (drop pos html) of
           Some open_match \<Rightarrow>
             balance_loop html (depth + 1) (nat (str_find html ''>'' pos + 1))
               (result @ [slice html pos (nat (str_find html ''>'' pos + 1))])
         | None \<Rightarrow>
             (case re_match False close_div_re (drop pos html) of
                Some close_match \<Rightarrow>
                  (if 0 < depth
                   then balance_loop html (depth - 1) (pos + m_end close_match)
                          (result @ [group close_match 0])
                   else balance_loop html depth (pos + m_end close_match) result)
              | None \<Rightarrow> balance_loop html depth (pos + 1) (result @ [[html ! pos]])))
      else Some result)"

declare balance_loop.simps [code]

definition balance_divs :: "string \<Rightarrow> string option" where
  "balance_divs html = map_option concat (balance_loop html 0 0 [])"

section \<open>The content cleaner\<close>

abbreviation (input) delete :: "rmatch \<Rightarrow> string" where "delete \<equiv> (\<lambda>mt. [])"
abbreviation (input) group1 :: "rmatch \<Rightarrow> string" where "group1 \<equiv> (\<lambda>mt. group mt 1)"

definition span_in_re :: re where
  \<comment> \<open>\<^verbatim>\<open><span\s+class="in">(.*?)</span>\<close>\<close>
  \<open>span_in_re = Cat [Lit ''<span'', many1 Space, Lit ''class="in">'', Grp 1 (many_lazy Dot),
     Lit ''</span>'']\<close>

definition callout_container_re :: re where
  \<comment> \<open>\<^verbatim>\<open><div\s+class="callout-container">\s*(.*?)\s*</div>\<close>\<close>
  \<open>callout_container_re = Cat [Lit ''<div'', many1 Space, Lit ''class="callout-container">'',
     many Space, Grp 1 (many_lazy Dot), many Space, Lit ''</div>'']\<close>

definition callout_content :: "rmatch \<Rightarrow> string" where
  \<open>callout_content mt =
     (if strip (group mt 1) \<noteq> [] then ''<div class="callout-content">'' @ group mt 1 @ ''</div>''
      else [])\<close>

definition clean_steps :: "(re \<times> (rmatch \<Rightarrow> string)) list" where
  \<comment> \<open>The substitutions of \<^verbatim>\<open>clean_content\<close> before the rebalancing, in the source's order.\<close>
  \<open>clean_steps = [
     (Cat [Lit ''<div'', many1 Space, Lit ''id="main-'', Alt (Lit ''top'') (Lit ''bottom''), Lit ''">'',
           many Space, Lit ''</div>''], delete),
     (Cat [Lit ''<!--'', many_lazy Dot, Lit ''-->''], delete),
     (Cat [many1 Space, Lit ''id="k-'', many not_quote, Lit ''"''], delete),
     (span_in_re, group1),
     (span_in_re, group1),
     (span_in_re, group1),
     (Cat [many1 Space, Lit ''style="'', many not_quote, Lit ''"''], delete),
     (Cat [Lit ''<br'', many1 Space, Lit ''class="webkit-block-placeholder"'', many Space,
           maybe (Ch (CHR ''/'')), Lit ''>''], \<lambda>mt. ''<br />''),
     (Cat [Lit ''<div'', many1 Space, Lit ''class="callout-container">'', many Space, Lit ''</div>''], delete),
     (Cat [Lit ''<div'', many1 Space, Lit ''class="article-info">'', many Space, Lit ''</div>''], delete),
     (Cat [Lit ''<div'', many1 Space, Lit ''class="clear">'', many Space, Lit ''</div>''], delete),
     (Cat [Lit ''<div'', many1 Space, Lit ''class="article-summary">'', many Space, Lit ''</div>''], delete),
     (Cat [Lit ''<p>'', many Space, Lit ''<br'', many Space, maybe (Ch (CHR ''/'')), Lit ''>'',
           many Space, Lit ''</p>''], delete),
     (Cat [Lit ''<div>'', many Space, Lit ''<br'', many Space, maybe (Ch (CHR ''/'')), Lit ''>'',
           many Space, Lit ''</div>''], delete),
     (Cat [Lit ''<i>'', many Space, Lit ''</i>''], delete),
     (Cat [Lit ''<div'', many1 Space, Lit ''class="caption">'', many Space, Lit ''</div>''], delete),
     (Cat [Lit ''<div'', many1 Space, Lit ''class="RichTextElement">'', many Space, Lit ''<div>'',
           Grp 1 (many_lazy Dot), Lit ''</div>'', many Space, Lit ''</div>''], group1),
     (Cat [Lit ''<div'', Cat [many1 Space, Lit ''class="RichTextElement"''], Lit ''>'', many Space,
           Grp 1 (many_lazy Dot), many Space, Lit ''</div>''], group1),
     (Cat [Lit ''<div'', many1 Space, Lit ''class="article-content">'', many Space], delete),
     (Cat [Lit ''<div'', many1 Space, Lit ''class="article-info">'', many Space,
           Lit ''<div'', many1 Space, Lit ''class="timestamp">'', many Space,
           Grp 1 (many_lazy Dot), many Space, Lit ''</div>'', many Space, Lit ''</div>''],
        \<lambda>mt. ''<p class="timestamp">'' @ group mt 1 @ ''</p>''),
     (Cat [Lit ''<div'', many1 Space, Lit ''class="article'', many not_quote, Lit ''">'', many Space], delete),
     (Cat [Lit ''<div'', many1 Space, Lit ''class="callout-top">'', many Space, Lit ''</div>''], delete),
     (Cat [Lit ''<div'', many1 Space, Lit ''class="callout-bottom">'', many Space, Lit ''</div>''], delete),
     (Cat [Lit ''<div'', many1 Space, Lit ''class="pagelet'', many not_quote, Lit ''">''], delete),
     (Cat [Lit ''<div'', many1 Space, Lit ''class="pagelet-body">''], delete),
     (Cat [Lit ''<div'', many1 Space, Lit ''class="elementIntroduction">''], delete),
     (Cat [Lit ''<div'', many1 Space, Lit ''class="callout">''], delete),
     (callout_container_re, callout_content)]\<close>

definition blank_lines_re :: re where
  \<comment> \<open>\<^verbatim>\<open>\n{3,}\<close>\<close>
  "blank_lines_re = Rep (Ch (CHR 0x0A)) 3 None True"

definition trailing_space_re :: re where
  \<comment> \<open>\<^verbatim>\<open>[ \t]+\n\<close>\<close>
  "trailing_space_re = Cat [many1 (OneOf [Ch (CHR '' ''), Ch (CHR 0x09)]), Lit [CHR 0x0A]]"

definition clean_content :: "string \<Rightarrow> string option" where
  "clean_content content =
     (case balance_divs (foldl (\<lambda>c step. re_sub False (fst step) (snd step) c) content clean_steps) of
        None \<Rightarrow> None
      | Some content \<Rightarrow>
          (let content = re_sub False blank_lines_re (\<lambda>mt. [CHR 0x0A, CHR 0x0A]) content;
               content = re_sub False trailing_space_re (\<lambda>mt. [CHR 0x0A]) content
           in Some (strip content)))"

section \<open>The page assembler\<close>

definition nav_item :: "string \<Rightarrow> string \<Rightarrow> string \<times> string \<Rightarrow> string" where
  \<open>nav_item root_prefix active item = (case item of (label, href) \<Rightarrow>
     (let cls = (if href = active then '' class="active"'' else []);
          full_href = root_prefix @ href
      in ''          <li'' @ cls @ ''><a href="'' @ full_href @ ''">'' @ label @ ''</a></li>''))\<close>

definition build_nav :: "string \<Rightarrow> string \<Rightarrow> string" where
  "build_nav root_prefix active = join ''\<newline>'' (map (nav_item root_prefix active) NAV_ITEMS)"

definition make_page :: "string \<Rightarrow> string \<Rightarrow> string \<Rightarrow> string \<Rightarrow> string" where
  \<open>make_page title nav_html content root_prefix =
     (let css_path = root_prefix @ ''style.css'' in
      ''<!DOCTYPE html>\<newline>'' @
      ''<html lang="en">\<newline>'' @
      ''<head>\<newline>'' @
      ''  <meta charset="UTF-8" />\<newline>'' @
      ''  <meta name="viewport" content="width=device-width, initial-scale=1.0" />\<newline>'' @
      ''  <title>'' @ title @ '' | Mighty Cheese</title>\<newline>'' @
      ''  <meta name="author" content="Colin Summers" />\<newline>'' @
      ''  <link rel="stylesheet" href="'' @ css_path @ ''" />\<newline>'' @
      ''</head>\<newline>'' @
      ''<body>\<newline>'' @
      ''  <nav class="navbar">\<newline>'' @
      ''    <div class="navbar-inner">\<newline>'' @
      ''      <a class="navbar-brand" href="'' @ (if root_prefix \<noteq> [] then root_prefix else ''./'') @
        ''">Mighty Cheese</a>\<newline>'' @
      ''      <input type="checkbox" id="nav-toggle" class="nav-toggle" />\<newline>'' @
      ''      <label for="nav-toggle" class="nav-toggle-label"><span></span></label>\<newline>'' @
      ''      <ul class="nav-links">\<newline>'' @
      nav_html @ ''\<newline>'' @
      ''      </ul>\<newline>'' @
      ''    </div>\<newline>'' @
      ''  </nav>\<newline>'' @
      ''  <main>\<newline>'' @
      content @ ''\<newline>'' @
      ''  </main>\<newline>'' @
      ''  <footer>\<newline>'' @
      ''    <p>Copyright Colin Summers 2006 and other years.</p>\<newline>'' @
      ''  </footer>\<newline>'' @
      ''</body>\<newline>'' @
      ''</html>\<newline>'')\<close>

section \<open>The driver\<close>

text \<open>
  The world a file is processed in: the text of every file, and the lines printed so far.
  A call of \<^verbatim>\<open>process_file\<close> either runs forever (\<open>None\<close>), raises (\<open>Inl\<close>), or returns its
  result with the world it leaves (\<open>Inr\<close>).
\<close>

record world =
  files :: "path \<rightharpoonup> string"
  stdout :: "string list"

definition process_file :: "path \<Rightarrow> world \<Rightarrow> path \<Rightarrow> string \<Rightarrow> (error + bool \<times> world) option" where
  "process_file site_root w file_path original_html =
     (let html = original_html in
      if \<not> sublist ''sandvox'' (lower html) \<and> \<not> sublist ''main-content'' html
      then Some (Inr (False, w))
      else
        (let title = extract_title html;
             main_content = extract_main_content html
         in
         if main_content = []
         then Some (Inr (False,
                w\<lparr>stdout := stdout w @ [''  WARNING: No main-content found in '' @ path_str file_path]\<rparr>))
         else
           (case extract_index_section main_content of (before_idx, idx_inner, after_idx) \<Rightarrow>
              (let content =
                     (if idx_inner \<noteq> []
                      then before_idx @ ''\<newline>'' @ transform_gallery_index idx_inner @ ''\<newline>'' @ after_idx
                      else main_content)
               in
               case clean_content content of
                 None \<Rightarrow> None
               | Some content \<Rightarrow>
                   (case relative_root site_root file_path of
                      Inl e \<Rightarrow> Some (Inl e)
                    | Inr root_prefix \<Rightarrow>
                        (case get_active_nav site_root file_path of
                           Inl e \<Rightarrow> Some (Inl e)
                         | Inr active \<Rightarrow>
                             (let nav_html = build_nav root_prefix active;
                                  output = make_page title nav_html content root_prefix
                              in Some (Inr (True, w\<lparr>files := (files w)(file_path \<mapsto> output)\<rparr>)))))))))"

definition already_modernized :: "string \<Rightarrow> bool" where
  \<comment> \<open>The test of \<^verbatim>\<open>main\<close> on its sample file:
      \<^verbatim>\<open>'<!DOCTYPE html>' in sample[:50] and 'navbar' in sample[:500]\<close>.\<close>
  "already_modernized sample =
     (sublist ''<!DOCTYPE html>'' (take 50 sample) \<and> sublist ''navbar'' (take 500 sample))"

section \<open>Properties of the index transformer\<close>



lemma re_finditer_Nil_iff: "re_finditer ic r s = [] \<longleftrightarrow> re_search ic r s = None"
  by (simp add: re_finditer_def re_search_def all_from.simps[of ic r False 0 None s] split: option.splits)


text \<open>
  Claim C6. When neither the image-anchor pattern nor the heading-entry pattern matches anywhere
  in the index text, \<open>transform_gallery_index\<close> returns the empty string.
\<close>

theorem transform_gallery_index_no_match:
  assumes "re_search False thumbnail_re s = None" and "re_search False entry_re s = None"
  shows "transform_gallery_index s = []"
proof -
  from assms have "thumbnails s = []" and "entries s = []"
    by (simp_all add: thumbnails_def entries_def re_finditer_Nil_iff)
  then show ?thesis by (simp add: transform_gallery_index_def)
qed

theorem transform_gallery_index_no_match_witness:
  \<open>re_search False thumbnail_re ''<p>no index here</p>'' = None \<and>
   re_search False entry_re ''<p>no index here</p>'' = None \<and>
   transform_gallery_index ''<p>no index here</p>'' = []\<close>
proof -
  have a: \<open>re_search False thumbnail_re ''<p>no index here</p>'' = None\<close> by code_simp
  have b: \<open>re_search False entry_re ''<p>no index here</p>'' = None\<close> by code_simp
  from a b transform_gallery_index_no_match[OF a b] show ?thesis by simp
qed

text \<open>
  Claim C7. In the scenario of the specification the content region holds one index container;
  its inner content is split off with nothing before and nothing after it, and the transformer
  turns it into a list with exactly one item: a link to \<^verbatim>\<open>a.html\<close> with the text
  \<^verbatim>\<open>Title A\<close>, followed inside the item by a block that holds \<^verbatim>\<open>Sum A\<close>.
\<close>

theorem index_scenario:
  \<open>extract_main_content ''<div id="main-content"><div id="index" class="general-index"><h3><a href="a.html">Title A</a></h3><div class="article-summary">Sum A</div></div></div>'' =
     ''<div id="index" class="general-index"><h3><a href="a.html">Title A</a></h3><div class="article-summary">Sum A</div></div>'' \<and>
   extract_index_section ''<div id="index" class="general-index"><h3><a href="a.html">Title A</a></h3><div class="article-summary">Sum A</div></div>'' =
     ([], ''<h3><a href="a.html">Title A</a></h3><div class="article-summary">Sum A</div>'', []) \<and>
   transform_gallery_index ''<h3><a href="a.html">Title A</a></h3><div class="article-summary">Sum A</div>'' =
     ''<ul class="index-list">\<newline><li><a href="a.html">Title A</a>\<newline><div class="summary">Sum A</div></li>\<newline></ul>''\<close>
  by code_simp

section \<open>Properties of the content cleaner\<close>

text \<open>
  Claim C8. Cleaning a callout container that holds only white space gives the empty string,
  and cleaning a callout container that holds \<^verbatim>\<open>X\<close> gives the renamed wrapper around
  \<^verbatim>\<open>X\<close>.
\<close>

theorem clean_content_callout:
  \<open>clean_content ''<div class="callout-container">  </div>'' = Some [] \<and>
   clean_content ''<div class="callout-container">X</div>'' = Some ''<div class="callout-content">X</div>''\<close>
  by code_simp

section \<open>Properties of the page assembler\<close>

lemma make_page_shape:
  \<open>make_page title nav_html content root_prefix =
     (''<!DOCTYPE html>'' @ ''\<newline><html lang="en">\<newline><head>\<newline>  <meta charset="UTF-8" />\<newline>  <meta name="viewport" content="width=device-width, initial-scale=1.0" />\<newline>  <title>'' @
      title @ '' | Mighty Cheese</title>\<newline>  <meta name="author" content="Colin Summers" />\<newline>  <link rel="stylesheet" href="'' @
      root_prefix @ ''style.css" />\<newline></head>\<newline><body>\<newline>  <nav class="'') @ ''navbar'' @
     (''">\<newline>    <div class="navbar-inner">\<newline>      <a class="navbar-brand" href="'' @
      (if root_prefix \<noteq> [] then root_prefix else ''./'') @
      ''">Mighty Cheese</a>\<newline>      <input type="checkbox" id="nav-toggle" class="nav-toggle" />\<newline>      <label for="nav-toggle" class="nav-toggle-label"><span></span></label>\<newline>      <ul class="nav-links">\<newline>'' @
      nav_html @ ''\<newline>      </ul>\<newline>    </div>\<newline>  </nav>\<newline>  <main>\<newline>'' @
      content @ ''\<newline>  </main>\<newline>  <footer>\<newline>    <p>Copyright Colin Summers 2006 and other years.</p>\<newline>  </footer>\<newline></body>\<newline></html>\<newline>'')\<close>
  by (simp add: make_page_def)

lemma sublist_take_append:
  assumes "length p + length x \<le> n"
  shows "sublist x (take n (p @ x @ q))"
proof -
  from assms have "take n (p @ x @ q) = p @ x @ take (n - length p - length x) q" by simp
  then show ?thesis by (simp only: sublist_appendI)
qed

text \<open>
  Claim C4, as amended. The detector looks for the navigation marker in the first 500
  characters only, and the title and the root prefix stand before the marker in the page. When
  the title and the root prefix have at most 195 characters together, the page that
  \<open>make_page\<close> produces is classified as modernized, whatever the navigation markup and the
  content are.
\<close>

theorem make_page_recognised:
  assumes "length title + length root_prefix \<le> 195"
  shows "already_modernized (make_page title nav_html content root_prefix)"
proof -
  have a: "sublist ''<!DOCTYPE html>'' (take 50 (make_page title nav_html content root_prefix))"
    unfolding make_page_shape
    using sublist_take_append[of "[]" "''<!DOCTYPE html>''" 50] by simp
  have b: "sublist ''navbar'' (take 500 (make_page title nav_html content root_prefix))"
    unfolding make_page_shape
    by (rule sublist_take_append) (use assms in simp)
  from a b show ?thesis by (simp add: already_modernized_def)
qed

theorem make_page_recognised_witness:
  "length ''Home'' + length ''../'' \<le> 195 \<and>
   already_modernized (make_page ''Home'' (build_nav ''../'' ''index.html'') ''<p>Hello</p>'' ''../'')"
  using make_page_recognised[of "''Home''" "''../''" "build_nav ''../'' ''index.html''" "''<p>Hello</p>''"]
  by simp

text \<open>
  The claim as stated, for every title, fails: with a title of 196 characters the marker ends
  at character 501 and the page is not classified as modernized.
\<close>

theorem make_page_long_title_not_recognised:
  "\<not> already_modernized (make_page (replicate 196 (CHR ''a'')) [] [] [])"
  by code_simp


section \<open>Properties of the driver\<close>

text \<open>
  Claim C10. A file whose text holds neither the legacy marker (in any letter case) nor the
  content-container marker, and a file whose main content is extracted as the empty text, is
  skipped: \<open>process_file\<close> returns \<open>False\<close> and leaves the text of every file as it was.
\<close>

theorem process_file_skips:
  assumes "(\<not> sublist ''sandvox'' (lower html) \<and> \<not> sublist ''main-content'' html) \<or>
           extract_main_content html = []"
  shows "\<exists>w'. process_file site_root w file_path html = Some (Inr (False, w')) \<and> files w' = files w"
  using assms by (auto simp add: process_file_def Let_def)

theorem process_file_skips_witness:
  \<open>(\<not> sublist ''sandvox'' (lower ''<p>plain</p>'') \<and> \<not> sublist ''main-content'' ''<p>plain</p>'') \<and>
   (\<exists>w'. process_file [''/'', ''site''] \<lparr>files = Map.empty, stdout = []\<rparr> [''/'', ''site'', ''a.html'']
             ''<p>plain</p>'' = Some (Inr (False, w')) \<and>
         files w' = files \<lparr>files = Map.empty, stdout = []\<rparr>) \<and>
   extract_main_content ''<!-- Sandvox --><div id="main-content"></div>'' = [] \<and>
   (\<exists>w'. process_file [''/'', ''site''] \<lparr>files = Map.empty, stdout = []\<rparr> [''/'', ''site'', ''a.html'']
             ''<!-- Sandvox --><div id="main-content"></div>'' = Some (Inr (False, w')) \<and>
         files w' = files \<lparr>files = Map.empty, stdout = []\<rparr>)\<close>
proof -
  have a: \<open>\<not> sublist ''sandvox'' (lower ''<p>plain</p>'') \<and> \<not> sublist ''main-content'' ''<p>plain</p>''\<close>
    by code_simp
  have b: \<open>extract_main_content ''<!-- Sandvox --><div id="main-content"></div>'' = []\<close>
    by code_simp
  from a b process_file_skips[OF disjI1[OF a]] process_file_skips[OF disjI2[OF b]]
  show ?thesis by blast
qed

section \<open>Properties of the nested-container extractor\<close>

text \<open>
  The scan as the specification words it, one position at a time: from the start position on,
  every further opening tag raises the depth, every closing tag lowers it, and the position of
  the closing tag that takes the depth from 1 to 0 ends the region. \<open>None\<close> says that no closing
  tag matches. As in the source, an opening tag is the text \<^verbatim>\<open><div\<close> and a closing tag the
  text \<^verbatim>\<open></div>\<close>. The source looks the next tags up with \<^verbatim>\<open>str.find\<close> instead; the two are
  compared below.
\<close>

function matching_close_from :: "string \<Rightarrow> nat \<Rightarrow> nat \<Rightarrow> nat option" where
  "matching_close_from [] i depth = None"
| "matching_close_from (x # xs) i depth =
     (if prefix ''</div>'' (x # xs) then
        (if depth - 1 = 0 then Some i else matching_close_from (drop 6 (x # xs)) (i + 6) (depth - 1))
      else if prefix ''<div'' (x # xs) then matching_close_from (drop 4 (x # xs)) (i + 4) (depth + 1)
      else matching_close_from xs (i + 1) depth)"
  by pat_completeness auto
termination
  by (relation "measure (\<lambda>(xs, i, depth). length xs)") auto

definition spec_matching_close :: "string \<Rightarrow> nat \<Rightarrow> nat option" where
  "spec_matching_close html start_pos = matching_close_from (drop start_pos html) start_pos 1"


lemma find_in_none_any:
  "find_in sub xs i = - 1 \<Longrightarrow> find_in sub xs j = - 1"
proof (induction xs arbitrary: i j)
  case Nil
  then show ?case by (simp split: if_splits)
next
  case (Cons x xs)
  from Cons.prems have np: "\<not> prefix sub (x # xs)" and f: "find_in sub xs (Suc i) = - 1"
    by (simp_all del: Cons_prefix_Cons split: if_splits)
  from Cons.IH[OF f, of "Suc j"] np show ?case by (simp del: Cons_prefix_Cons)
qed

lemma find_in_none_drop:
  "find_in sub xs i = - 1 \<Longrightarrow> find_in sub (drop n xs) j = - 1"
proof (induction n arbitrary: xs i j)
  case 0
  then show ?case using find_in_none_any[of sub xs i j] by (simp del: Cons_prefix_Cons)
next
  case (Suc n)
  show ?case
  proof (cases xs)
    case Nil
    with Suc.prems show ?thesis by (simp split: if_splits)
  next
    case (Cons x xs')
    with Suc.prems have "find_in sub xs' (Suc i) = - 1" by (simp del: Cons_prefix_Cons split: if_splits)
    from Suc.IH[OF this] Cons show ?thesis by (simp del: Cons_prefix_Cons)
  qed
qed

lemma open_close_disjoint: "prefix ''<div'' ys \<Longrightarrow> prefix ''</div>'' ys \<Longrightarrow> False"
  by (auto simp: prefix_def)

lemma matching_none:
  "find_in ''</div>'' xs i = - 1 \<Longrightarrow> matching_close_from xs j depth = None"
proof (induction xs j depth arbitrary: i rule: matching_close_from.induct)
  case (1 i depth)
  show ?case by (simp del: Cons_prefix_Cons)
next
  case (2 x xs j depth)
  from "2.prems" have np: "\<not> prefix ''</div>'' (x # xs)"
    by (auto simp del: Cons_prefix_Cons split: if_splits)
  show ?case
  proof (cases "prefix ''<div'' (x # xs)")
    case True
    from find_in_none_drop[OF "2.prems", of 4 0]
    have "find_in ''</div>'' (drop 4 (x # xs)) 0 = - 1" .
    from "2.IH"(2)[OF np True this] np True show ?thesis by (simp del: Cons_prefix_Cons)
  next
    case False
    from "2.prems" np have "find_in ''</div>'' xs (Suc i) = - 1" by (simp del: Cons_prefix_Cons)
    from "2.IH"(3)[OF np False this] np False show ?thesis by (simp del: Cons_prefix_Cons)
  qed
qed

lemma skip_to_open:
  "find_in ''<div'' xs i = int o' \<Longrightarrow>
   find_in ''</div>'' xs i = - 1 \<or> int o' < find_in ''</div>'' xs i \<Longrightarrow>
   matching_close_from xs i d = matching_close_from (drop (o' - i + 4) xs) (o' + 4) (d + 1)"
proof (induction xs arbitrary: i)
  case Nil
  then show ?case by (simp del: Cons_prefix_Cons)
next
  case (Cons x xs)
  show ?case
  proof (cases "prefix ''<div'' (x # xs)")
    case True
    with Cons.prems(1) have o: "o' = i" by (simp del: Cons_prefix_Cons)
    have np: "\<not> prefix ''</div>'' (x # xs)" using True open_close_disjoint by blast
    from True np o show ?thesis by (simp del: Cons_prefix_Cons)
  next
    case False
    with Cons.prems(1) have f: "find_in ''<div'' xs (Suc i) = int o'" by (simp del: Cons_prefix_Cons)
    from find_in_bounds[of "''<div''" xs "Suc i"] f have le: "Suc i \<le> o'" by (simp del: Cons_prefix_Cons)
    have np: "\<not> prefix ''</div>'' (x # xs)"
    proof
      assume "prefix ''</div>'' (x # xs)"
      then have "find_in ''</div>'' (x # xs) i = int i" by (simp del: Cons_prefix_Cons)
      with Cons.prems(2) le show False by (simp del: Cons_prefix_Cons)
    qed
    with Cons.prems(2) have c: "find_in ''</div>'' xs (Suc i) = - 1 \<or> int o' < find_in ''</div>'' xs (Suc i)"
      by (simp del: Cons_prefix_Cons)
    from le have "o' - i + 4 = Suc (o' - Suc i + 4)" by simp
    then have dd: "drop (o' - i + 4) (x # xs) = drop (o' - Suc i + 4) xs"
      by (simp only: drop_Suc_Cons)
    have step: "matching_close_from (x # xs) i d = matching_close_from xs (Suc i) d"
      using False np by (simp del: Cons_prefix_Cons)
    from Cons.IH[OF f c] show ?thesis unfolding step dd .
  qed
qed

lemma skip_to_close:
  "find_in ''</div>'' xs i = int c \<Longrightarrow>
   find_in ''<div'' xs i = - 1 \<or> int c < find_in ''<div'' xs i \<Longrightarrow>
   matching_close_from xs i d =
     (if d - 1 = 0 then Some c else matching_close_from (drop (c - i + 6) xs) (c + 6) (d - 1))"
proof (induction xs arbitrary: i)
  case Nil
  then show ?case by (simp del: Cons_prefix_Cons)
next
  case (Cons x xs)
  show ?case
  proof (cases "prefix ''</div>'' (x # xs)")
    case True
    with Cons.prems(1) have o: "c = i" by (simp del: Cons_prefix_Cons)
    from True o show ?thesis by (simp del: Cons_prefix_Cons)
  next
    case False
    with Cons.prems(1) have f: "find_in ''</div>'' xs (Suc i) = int c" by (simp del: Cons_prefix_Cons)
    from find_in_bounds[of "''</div>''" xs "Suc i"] f have le: "Suc i \<le> c" by (simp del: Cons_prefix_Cons)
    have np: "\<not> prefix ''<div'' (x # xs)"
    proof
      assume "prefix ''<div'' (x # xs)"
      then have "find_in ''<div'' (x # xs) i = int i" by (simp del: Cons_prefix_Cons)
      with Cons.prems(2) le show False by (simp del: Cons_prefix_Cons)
    qed
    with Cons.prems(2) have c: "find_in ''<div'' xs (Suc i) = - 1 \<or> int c < find_in ''<div'' xs (Suc i)"
      by (simp del: Cons_prefix_Cons)
    from le have "c - i + 6 = Suc (c - Suc i + 6)" by simp
    then have dd: "drop (c - i + 6) (x # xs) = drop (c - Suc i + 6) xs"
      by (simp only: drop_Suc_Cons)
    have step: "matching_close_from (x # xs) i d = matching_close_from xs (Suc i) d"
      using False np by (simp del: Cons_prefix_Cons)
    from Cons.IH[OF f c] show ?thesis unfolding step dd .
  qed
qed

lemma find_in_prefix:
  "find_in sub xs i = int k \<Longrightarrow> prefix sub (drop (k - i) xs)"
proof (induction xs arbitrary: i)
  case Nil
  then show ?case by (simp split: if_splits)
next
  case (Cons x xs)
  show ?case
  proof (cases "prefix sub (x # xs)")
    case True
    with Cons.prems show ?thesis by (simp del: Cons_prefix_Cons)
  next
    case False
    with Cons.prems have f: "find_in sub xs (Suc i) = int k" by (simp del: Cons_prefix_Cons)
    from find_in_bounds[of sub xs "Suc i"] f have le: "Suc i \<le> k" by (simp del: Cons_prefix_Cons)
    then have "k - i = Suc (k - Suc i)" by (simp del: Cons_prefix_Cons)
    with Cons.IH[OF f] show ?thesis by (simp del: Cons_prefix_Cons)
  qed
qed

lemma find_open_close_differ:
  assumes "find_in ''<div'' xs i = find_in ''</div>'' xs i"
  shows "find_in ''</div>'' xs i = - 1"
proof (rule ccontr)
  assume n: "find_in ''</div>'' xs i \<noteq> - 1"
  from find_in_bounds[OF n] obtain k where k: "find_in ''</div>'' xs i = int k"
    by (metis nonneg_int_cases of_nat_0_le_iff order_trans)
  from find_in_prefix[OF k] find_in_prefix[of "''<div''" xs i k] assms k
  show False using open_close_disjoint by auto
qed

lemma matching_bounds:
  "matching_close_from xs i d = Some e \<Longrightarrow> i \<le> e \<and> e + 6 \<le> i + length xs"
proof (induction xs i d rule: matching_close_from.induct)
  case (1 i depth)
  then show ?case by simp
next
  case (2 x xs i depth)
  show ?case
  proof (cases "prefix ''</div>'' (x # xs)")
    case True
    then have len: "6 \<le> length (x # xs)" using prefix_length_le by fastforce
    show ?thesis
    proof (cases "depth - 1 = 0")
      case z: True
      with True "2.prems" have "e = i" by (simp del: Cons_prefix_Cons)
      with len show ?thesis by simp
    next
      case nz: False
      with True "2.prems"
      have "matching_close_from (drop 6 (x # xs)) (i + 6) (depth - 1) = Some e"
        by (simp del: Cons_prefix_Cons drop_Suc_Cons)
      from "2.IH"(1)[OF True nz this] len show ?thesis by (simp; linarith)
    qed
  next
    case False
    show ?thesis
    proof (cases "prefix ''<div'' (x # xs)")
      case True
      then have len: "4 \<le> length (x # xs)" using prefix_length_le by fastforce
      from False True "2.prems"
      have "matching_close_from (drop 4 (x # xs)) (i + 4) (depth + 1) = Some e"
        by (simp del: Cons_prefix_Cons drop_Suc_Cons)
      from "2.IH"(2)[OF False True this] len show ?thesis by (simp; linarith)
    next
      case no: False
      with False "2.prems" have "matching_close_from xs (i + 1) depth = Some e"
        by (simp del: Cons_prefix_Cons)
      from "2.IH"(3)[OF False no this] show ?thesis by simp
    qed
  qed
qed

lemma div_scan_refines:
  "0 < depth \<Longrightarrow>
   div_scan html start_pos depth pos =
     (case matching_close_from (drop pos html) pos depth of
        None \<Rightarrow> (drop start_pos html, length html)
      | Some e \<Rightarrow> (slice html start_pos e, e + 6))"
proof (induction html start_pos depth pos rule: div_scan.induct)
  case (1 html start_pos depth pos)
  show ?case
  proof (cases "pos < length html")
    case False
    then have "drop pos html = []" by simp
    with False show ?thesis by (simp add: div_scan.simps[of html start_pos depth pos])
  next
    case True
    let ?xs = "drop pos html"
    let ?o = "str_find html ''<div'' pos"
    let ?c = "str_find html ''</div>'' pos"
    have fo: "?o = find_in ''<div'' ?xs pos" and fc: "?c = find_in ''</div>'' ?xs pos"
      using True by (simp_all add: str_find_def)
    have guard: "0 < depth \<and> pos < length html" using True "1.prems" by simp
    show ?thesis
    proof (cases "?c = - 1")
      case none: True
      from matching_none[of ?xs pos pos depth] none fc
      have "matching_close_from ?xs pos depth = None" by simp
      with guard none show ?thesis
        by (simp add: div_scan.simps[of html start_pos depth pos] Let_def)
    next
      case some: False
      define c where "c = nat ?c"
      have b0: "int pos \<le> ?c" "?c + 6 \<le> int (length html)"
        using str_find_bounds[OF some] by simp_all
      then have "0 \<le> ?c" by linarith
      then have c: "?c = int c" by (simp add: c_def)
      from b0 have cb: "pos \<le> c" "c + 6 \<le> length html" unfolding c by linarith+
      have drop_c: "drop (c - pos + 6) ?xs = drop (c + 6) html" using cb by simp
      show ?thesis
      proof (cases "?o \<noteq> - 1 \<and> ?o < ?c")
        case op: True
        define o' where "o' = nat ?o"
        have b1: "int pos \<le> ?o" "?o + 4 \<le> int (length html)"
          using op str_find_bounds[of html "''<div''" pos] by simp_all
        then have "0 \<le> ?o" by linarith
        then have o: "?o = int o'" by (simp add: o'_def)
        from b1 have ob: "pos \<le> o'" "o' + 4 \<le> length html" unfolding o by linarith+
        have drop_o: "drop (o' - pos + 4) ?xs = drop (o' + 4) html" using ob by simp
        have f1: "find_in ''<div'' ?xs pos = int o'" using o fo by simp
        have f2: "find_in ''</div>'' ?xs pos = - 1 \<or> int o' < find_in ''</div>'' ?xs pos"
          using op o fc by simp
        have sk: "matching_close_from ?xs pos depth =
                  matching_close_from (drop (o' + 4) html) (o' + 4) (depth + 1)"
          using skip_to_open[OF f1 f2, of depth] unfolding drop_o .
        have n: "nat (?o + 4) = o' + 4" using o by simp
        from "1.IH"(1)[OF guard refl refl some op] n
        have "div_scan html start_pos (depth + 1) (o' + 4) =
              (case matching_close_from (drop (o' + 4) html) (o' + 4) (depth + 1) of
                 None \<Rightarrow> (drop start_pos html, length html)
               | Some e \<Rightarrow> (slice html start_pos e, e + 6))"
          by simp
        with guard some op n sk show ?thesis
          by (simp add: div_scan.simps[of html start_pos depth pos] Let_def)
      next
        case cl: False
        have ne: "?o \<noteq> ?c"
        proof
          assume "?o = ?c"
          with fo fc have "find_in ''<div'' ?xs pos = find_in ''</div>'' ?xs pos" by simp
          from find_open_close_differ[OF this] fc some show False by simp
        qed
        with cl c have f2: "find_in ''<div'' ?xs pos = - 1 \<or> int c < find_in ''<div'' ?xs pos"
          using fo by auto
        have f1: "find_in ''</div>'' ?xs pos = int c" using c fc by simp
        have sk: "matching_close_from ?xs pos depth =
                  (if depth - 1 = 0 then Some c
                   else matching_close_from (drop (c + 6) html) (c + 6) (depth - 1))"
          using skip_to_close[OF f1 f2, of depth] unfolding drop_c .
        have n: "nat (?c + 6) = c + 6" "nat ?c = c" using c by simp_all
        show ?thesis
        proof (cases "depth - 1 = 0")
          case True
          with guard some cl n sk show ?thesis
            by (auto simp add: div_scan.simps[of html start_pos depth pos] Let_def)
        next
          case False
          then have pos': "0 < depth - 1" by simp
          from "1.IH"(2)[OF guard refl refl some cl False pos'] n
          have "div_scan html start_pos (depth - 1) (c + 6) =
                (case matching_close_from (drop (c + 6) html) (c + 6) (depth - 1) of
                   None \<Rightarrow> (drop start_pos html, length html)
                 | Some e \<Rightarrow> (slice html start_pos e, e + 6))"
            by simp
          with guard some cl n sk False show ?thesis
            by (auto simp add: div_scan.simps[of html start_pos depth pos] Let_def)
        qed
      qed
    qed
  qed
qed



text \<open>
  Claim C1. \<open>extract_div_content\<close> is a total function without an error branch. For every text
  and every start position in it, the region it returns is the text from the start position
  to an end position that is not behind the end of the text, so it is no longer than the text
  that was left, and the position it returns is in the text. The end position is that of the
  matching closing tag of the specification's scan; when there is no matching closing tag, the
  region is everything from the start position to the end of the text.
\<close>

theorem extract_div_content_total:
  assumes "start_pos \<le> length html"
  shows "extract_div_content html start_pos =
           (case spec_matching_close html start_pos of
              None \<Rightarrow> (drop start_pos html, length html)
            | Some e \<Rightarrow> (slice html start_pos e, e + 6)) \<and>
         (\<exists>e. start_pos \<le> e \<and> e \<le> length html \<and>
              fst (extract_div_content html start_pos) = slice html start_pos e) \<and>
         length (fst (extract_div_content html start_pos)) \<le> length html - start_pos \<and>
         snd (extract_div_content html start_pos) \<le> length html"
proof -
  have r: "extract_div_content html start_pos =
           (case spec_matching_close html start_pos of
              None \<Rightarrow> (drop start_pos html, length html)
            | Some e \<Rightarrow> (slice html start_pos e, e + 6))"
    unfolding extract_div_content_def spec_matching_close_def
    by (rule div_scan_refines) simp
  show ?thesis
  proof (cases "spec_matching_close html start_pos")
    case None
    with r have e: "extract_div_content html start_pos = (drop start_pos html, length html)" by simp
    have "slice html start_pos (length html) = drop start_pos html" by (simp add: slice_def)
    with e r assms show ?thesis by auto
  next
    case (Some e)
    with r have e: "extract_div_content html start_pos = (slice html start_pos e, e + 6)" by simp
    from Some matching_bounds[of "drop start_pos html" start_pos 1 e] assms
    have b: "start_pos \<le> e" "e + 6 \<le> length html"
      by (simp_all add: spec_matching_close_def)
    then have "length (slice html start_pos e) \<le> length html - start_pos"
      by (simp add: slice_def)
    with e r b show ?thesis by auto
  qed
qed

theorem extract_div_content_total_witness:
  "(5::nat) \<le> length ''<div><div>a</div>b'' \<and>
   spec_matching_close ''<div><div>a</div>b'' 5 = None \<and>
   extract_div_content ''<div><div>a</div>b'' 5 = (''<div>a</div>b'', 18) \<and>
   (2::nat) \<le> length ''ab<div>c</div>d</div>e'' \<and>
   spec_matching_close ''ab<div>c</div>d</div>e'' 2 = Some 15 \<and>
   extract_div_content ''ab<div>c</div>d</div>e'' 2 = (''<div>c</div>d'', 21)"
proof -
  have a: "(5::nat) \<le> length ''<div><div>a</div>b''" by simp
  have b: "spec_matching_close ''<div><div>a</div>b'' 5 = None" by code_simp
  have c: "(2::nat) \<le> length ''ab<div>c</div>d</div>e''" by simp
  have d: "spec_matching_close ''ab<div>c</div>d</div>e'' 2 = Some 15" by code_simp
  from extract_div_content_total[OF a] extract_div_content_total[OF c] a b c d
  show ?thesis by (simp add: slice_def)
qed

section \<open>Properties of the div rebalancer\<close>

text \<open>
  A text begins with an opening tag, or with a closing tag, when the pattern of the rebalancer
  matches at its start.
\<close>

lemma mrun_Lit:
  "mrun False (R (Lit l) # k) (p, s, caps) =
     (if prefix l s then mrun False k (if l = [] then p else Some (last l), drop (length l) s, caps)
      else None)"
proof (induction l arbitrary: p s)
  case Nil
  show ?case by (simp add: mrun.simps(4))
next
  case (Cons c cs)
  show ?case
  proof (cases s)
    case Nil
    then show ?thesis by (simp add: mrun.simps(5))
  next
    case (Cons x xs)
    show ?thesis
    proof (cases "x = c")
      case True
      with Cons Cons.IH[of "Some x" xs] show ?thesis
        by (cases cs) (simp_all add: mrun.simps(5))
    next
      case False
      with Cons show ?thesis by (simp add: mrun.simps(5))
    qed
  qed
qed

definition open_tag :: "string \<Rightarrow> bool" where
  "open_tag s = (re_match False open_div_re s \<noteq> None)"


lemma open_tag_iff:
  "open_tag s \<longleftrightarrow> prefix ''<div'' s \<and> (case drop 4 s of [] \<Rightarrow> False | w # t \<Rightarrow> is_space w \<or> w = CHR ''>'')"
proof -
  have "mrun False [R open_div_re] (None, s, []) =
        (if prefix ''<div'' s
         then (case drop 4 s of [] \<Rightarrow> None
               | w # t \<Rightarrow> if is_space w \<or> w = CHR ''>'' then Some (Some w, t, []) else None)
         else None)"
    unfolding open_div_re_def
    by (simp add: mrun.simps(1,6,8,9) mrun_Lit eval_nat_numeral del: Cons_prefix_Cons split: list.splits)
  then show ?thesis
    by (auto simp add: open_tag_def re_match_def try_at_def simp del: Cons_prefix_Cons
        split: list.splits option.splits if_splits)
qed

lemma mrun_spaces_gt:
  "mrun False [R (many Space), R (Cat [Lit ''>''])] (p, s, caps) =
     (case dropWhile is_space s of
        [] \<Rightarrow> None
      | c # t \<Rightarrow> if c = CHR ''>'' then Some (Some c, t, caps) else None)"
proof (induction s arbitrary: p)
  case Nil
  show ?case
    by (simp add: mrun.simps(1,4,5,7,8,9))
next
  case (Cons x xs)
  have gt: "\<not> is_space (CHR ''>'')" by (simp add: is_space_def)
  show ?case
  proof (cases "is_space x")
    case True
    with gt have ne: "x \<noteq> CHR ''>''" by auto
    from True ne Cons.IH[of "Some x"] show ?thesis
      by (subst mrun.simps(7)) (simp add: mrun.simps(1,4,5,8,9) split: list.splits option.splits)
  next
    case False
    then show ?thesis
      by (subst mrun.simps(7)) (simp add: mrun.simps(1,4,5,8,9))
  qed
qed

lemma close_match_eq:
  "re_match False close_div_re s =
     (if prefix ''</div'' s then
        (case dropWhile is_space (drop 5 s) of
           [] \<Rightarrow> None
         | c # t \<Rightarrow> if c = CHR ''>''
             then Some \<lparr>m_start = 0, m_end = length s - length t,
                        m_text = take (length s - length t) s, m_caps = []\<rparr>
             else None)
      else None)"
  unfolding close_div_re_def re_match_def try_at_def
  by (cases "dropWhile is_space (drop 5 s)")
     (simp_all add: mrun.simps(8,9) mrun_Lit mrun_spaces_gt eval_nat_numeral
        del: Cons_prefix_Cons dropWhile_eq_Nil_conv)


text \<open>
  The loop's induction rule for a fixed text, one case per branch of the loop body.
\<close>

lemma balance_loop_induct [consumes 1, case_names finish tag_open close_keep close_drop char]:
  assumes run: "balance_loop html depth pos result = Some y"
    and finish: "\<And>depth pos result. \<not> pos < length html \<Longrightarrow> P depth pos result result"
    and tag_open: "\<And>depth pos result y. pos < length html \<Longrightarrow> open_tag (drop pos html) \<Longrightarrow>
        P (depth + 1) (nat (str_find html ''>'' pos + 1))
          (result @ [slice html pos (nat (str_find html ''>'' pos + 1))]) y \<Longrightarrow>
        P depth pos result y"
    and close_keep: "\<And>depth pos result y cm. pos < length html \<Longrightarrow> \<not> open_tag (drop pos html) \<Longrightarrow>
        re_match False close_div_re (drop pos html) = Some cm \<Longrightarrow> 0 < depth \<Longrightarrow>
        P (depth - 1) (pos + m_end cm) (result @ [group cm 0]) y \<Longrightarrow>
        P depth pos result y"
    and close_drop: "\<And>depth pos result y cm. pos < length html \<Longrightarrow> \<not> open_tag (drop pos html) \<Longrightarrow>
        re_match False close_div_re (drop pos html) = Some cm \<Longrightarrow> \<not> 0 < depth \<Longrightarrow>
        P depth (pos + m_end cm) result y \<Longrightarrow>
        P depth pos result y"
    and char: "\<And>depth pos result y. pos < length html \<Longrightarrow> \<not> open_tag (drop pos html) \<Longrightarrow>
        re_match False close_div_re (drop pos html) = None \<Longrightarrow>
        P depth (pos + 1) (result @ [[html ! pos]]) y \<Longrightarrow>
        P depth pos result y"
  shows "P depth pos result y"
proof -
  have "html' = html \<longrightarrow> P depth pos result y"
    if "balance_loop html' depth pos result = Some y" for html'
    using that
  proof (induction html' depth pos result y rule: balance_loop.raw_induct[rotated 1, consumes 1])
    case (1 f h d p r z)
    show ?case
    proof
      assume h: "h = html"
      show "P d p r z"
      proof (cases "p < length html")
        case False
        with "1.hyps" h have "z = r" by simp
        with finish[OF False] show ?thesis by simp
      next
        case True
        show ?thesis
        proof (cases "re_match False open_div_re (drop p html)")
          case (Some om)
          then have ot: "open_tag (drop p html)" by (simp add: open_tag_def)
          from "1.hyps" h True Some
          have "f html (d + 1) (nat (str_find html ''>'' p + 1))
                  (r @ [slice html p (nat (str_find html ''>'' p + 1))]) = Some z"
            by simp
          from "1.IH"[OF this] have "P (d + 1) (nat (str_find html ''>'' p + 1))
                  (r @ [slice html p (nat (str_find html ''>'' p + 1))]) z" by simp
          from tag_open[OF True ot this] show ?thesis .
        next
          case None
          then have ot: "\<not> open_tag (drop p html)" by (simp add: open_tag_def)
          show ?thesis
          proof (cases "re_match False close_div_re (drop p html)")
            case cn: None
            from "1.hyps" h True None cn
            have "f html d (p + 1) (r @ [[html ! p]]) = Some z" by simp
            from "1.IH"[OF this] have "P d (p + 1) (r @ [[html ! p]]) z" by simp
            from char[OF True ot cn this] show ?thesis .
          next
            case (Some cm)
            show ?thesis
            proof (cases "0 < d")
              case dp: True
              from "1.hyps" h True None Some dp
              have "f html (d - 1) (p + m_end cm) (r @ [group cm 0]) = Some z" by simp
              from "1.IH"[OF this] have "P (d - 1) (p + m_end cm) (r @ [group cm 0]) z" by simp
              from close_keep[OF True ot Some dp this] show ?thesis .
            next
              case dz: False
              from "1.hyps" h True None Some dz
              have "f html d (p + m_end cm) r = Some z" by simp
              from "1.IH"[OF this] have "P d (p + m_end cm) r z" by simp
              from close_drop[OF True ot Some dz this] show ?thesis .
            qed
          qed
        qed
      qed
    qed
  qed
  from this[OF run] show ?thesis by simp
qed

lemma find_in_single:
  "find_in [c] xs i =
     (if c \<in> set xs then int (i + length (takeWhile (\<lambda>x. x \<noteq> c) xs)) else - 1)"
  by (induction xs arbitrary: i) auto

lemma str_find_gt_none:
  "pos \<le> length html \<Longrightarrow>
     (str_find html ''>'' pos = - 1) = (CHR ''>'' \<notin> set (drop pos html))"
  by (simp add: str_find_def find_in_single)

lemma str_find_gt_some:
  assumes "pos \<le> length html" and "CHR ''>'' \<in> set (drop pos html)"
  shows "\<exists>q t. drop pos html = q @ CHR ''>'' # t \<and> CHR ''>'' \<notin> set q \<and>
           nat (str_find html ''>'' pos + 1) = pos + length q + 1"
proof -
  let ?q = "takeWhile (\<lambda>x. x \<noteq> CHR ''>'') (drop pos html)"
  let ?r = "dropWhile (\<lambda>x. x \<noteq> CHR ''>'') (drop pos html)"
  from assms(2) have "?r \<noteq> []" by simp
  then obtain x t where r: "?r = x # t" by (cases ?r) auto
  then have "x = CHR ''>''" using hd_dropWhile[of "\<lambda>x. x \<noteq> CHR ''>''" "drop pos html"] by fastforce
  with r have d: "drop pos html = ?q @ CHR ''>'' # t"
    using takeWhile_dropWhile_id[of "\<lambda>x. x \<noteq> CHR ''>''" "drop pos html"] by simp
  have nq: "CHR ''>'' \<notin> set ?q" using set_takeWhileD by fastforce
  from assms have "str_find html ''>'' pos = int (pos + length ?q)"
    by (simp add: str_find_def find_in_single)
  then have "nat (str_find html ''>'' pos + 1) = pos + length ?q + 1" by simp
  with d nq show ?thesis by blast
qed

definition bad_open :: "string \<Rightarrow> nat \<Rightarrow> bool" where
  "bad_open html p = (p < length html \<and> open_tag (drop p html) \<and> CHR ''>'' \<notin> set (drop p html))"

lemma gt_after:
  assumes "drop pos html = q @ CHR ''>'' # t" and "pos \<le> p" and "p \<le> pos + length q"
  shows "CHR ''>'' \<in> set (drop p html)"
proof -
  have "drop p html = drop (p - pos) (drop pos html)" using assms(2) by simp
  also have "\<dots> = drop (p - pos) q @ CHR ''>'' # t" using assms by simp
  finally show ?thesis by simp
qed

lemma close_match_shape:
  assumes "re_match False close_div_re s = Some cm"
  shows "\<exists>ws t. s = ''</div'' @ ws @ CHR ''>'' # t \<and> list_all is_space ws \<and>
           m_end cm = 6 + length ws \<and> group cm 0 = ''</div'' @ ws @ ''>''"
proof -
  from assms have p: "prefix ''</div'' s"
    by (simp add: close_match_eq del: Cons_prefix_Cons split: if_splits)
  then obtain u where s: "s = ''</div'' @ u" by (auto simp: prefix_def)
  then have d5: "drop 5 s = u" by simp
  from assms p d5 obtain t where dw: "dropWhile is_space u = CHR ''>'' # t"
    and cm: "cm = \<lparr>m_start = 0, m_end = length s - length t,
                    m_text = take (length s - length t) s, m_caps = []\<rparr>"
    by (auto simp add: close_match_eq simp del: Cons_prefix_Cons split: list.splits if_splits)
  let ?ws = "takeWhile is_space u"
  have u: "u = ?ws @ CHR ''>'' # t" using takeWhile_dropWhile_id[of is_space u] dw by simp
  have ws: "list_all is_space ?ws" by (simp add: list_all_iff) (meson set_takeWhileD)
  have len: "length s - length t = 6 + length ?ws"
    using s arg_cong[OF u, of length] by simp
  have s': "s = ''</div'' @ ?ws @ CHR ''>'' # t" using s u by simp
  have g: "take (length xs) (xs @ ys) = xs" for xs ys :: string by simp
  have len': "6 + length ?ws = length (''</div'' @ ?ws @ ''>'')" by simp
  have s'': "s = (''</div'' @ ?ws @ ''>'') @ t" using s' by simp
  have "take (6 + length ?ws) s = ''</div'' @ ?ws @ ''>''"
    unfolding len' by (subst s'') (rule g)
  with cm len have "m_end cm = 6 + length ?ws" "group cm 0 = ''</div'' @ ?ws @ ''>''"
    by (simp_all add: group_def)
  with s' ws show ?thesis by blast
qed

lemma no_bad_open:
  assumes "balance_loop html depth pos result = Some y" and "bad_open html p"
  shows "p < pos"
  using assms
proof (induction arbitrary: p rule: balance_loop_induct)
  case (finish depth pos result)
  then show ?case by (simp add: bad_open_def)
next
  case (tag_open depth pos result y)
  show ?case
  proof (cases "CHR ''>'' \<in> set (drop pos html)")
    case False
    with tag_open.hyps have "bad_open html pos" by (simp add: bad_open_def)
    from tag_open.IH[OF this] False tag_open.hyps show ?thesis
      using str_find_gt_none[of pos html] by simp
  next
    case True
    from str_find_gt_some[OF _ True] tag_open.hyps obtain q t where
      d: "drop pos html = q @ CHR ''>'' # t" and
      n: "nat (str_find html ''>'' pos + 1) = pos + length q + 1" by auto
    from tag_open.IH[OF tag_open.prems] n have lt: "p \<le> pos + length q" by simp
    show ?thesis
    proof (rule ccontr)
      assume "\<not> p < pos"
      then have "pos \<le> p" by simp
      from gt_after[OF d this lt] tag_open.prems show False by (simp add: bad_open_def)
    qed
  qed
next
  case (close_keep depth pos result y cm)
  from close_match_shape[OF close_keep.hyps(3)] obtain ws t where
    d: "drop pos html = (''</div'' @ ws) @ CHR ''>'' # t" and n: "m_end cm = 6 + length ws" by auto
  from close_keep.IH[OF close_keep.prems] n have lt: "p \<le> pos + length (''</div'' @ ws)" by simp
  show ?case
  proof (rule ccontr)
    assume "\<not> p < pos"
    then have "pos \<le> p" by simp
    from gt_after[OF d this lt] close_keep.prems show False by (simp add: bad_open_def)
  qed
next
  case (close_drop depth pos result y cm)
  from close_match_shape[OF close_drop.hyps(3)] obtain ws t where
    d: "drop pos html = (''</div'' @ ws) @ CHR ''>'' # t" and n: "m_end cm = 6 + length ws" by auto
  from close_drop.IH[OF close_drop.prems] n have lt: "p \<le> pos + length (''</div'' @ ws)" by simp
  show ?case
  proof (rule ccontr)
    assume "\<not> p < pos"
    then have "pos \<le> p" by simp
    from gt_after[OF d this lt] close_drop.prems show False by (simp add: bad_open_def)
  qed
next
  case (char depth pos result y)
  from char.IH[OF char.prems] have "p \<le> pos" by simp
  moreover have "p \<noteq> pos" using char.prems char.hyps by (auto simp add: bad_open_def)
  ultimately show ?case by simp
qed


lemma balance_divs_diverges:
  assumes "bad_open html p"
  shows "balance_divs html = None"
proof (cases "balance_loop html 0 0 []")
  case None
  then show ?thesis by (simp add: balance_divs_def)
next
  case (Some y)
  from no_bad_open[OF Some assms] show ?thesis by simp
qed

text \<open>
  The loop returns on every other text: each pass moves the position forward when every
  opening tag has a \<^verbatim>\<open>>\<close> behind it.
\<close>

lemma balance_loop_returns:
  assumes "\<And>p. \<not> bad_open html p"
  shows "\<exists>y. balance_loop html depth pos result = Some y"
proof (induction "length html - pos" arbitrary: depth pos result rule: less_induct)
  case less
  show ?case
  proof (cases "pos < length html")
    case False
    then show ?thesis by (subst balance_loop.simps) simp
  next
    case True
    show ?thesis
    proof (cases "re_match False open_div_re (drop pos html)")
      case (Some om)
      then have ot: "open_tag (drop pos html)" by (simp add: open_tag_def)
      with assms[of pos] True have gt: "CHR ''>'' \<in> set (drop pos html)"
        by (auto simp add: bad_open_def)
      from str_find_gt_some[OF _ gt] True obtain q t where
        d: "drop pos html = q @ CHR ''>'' # t" and
        n: "nat (str_find html ''>'' pos + 1) = pos + length q + 1" by auto
      from n True have "length html - nat (str_find html ''>'' pos + 1) < length html - pos"
        by simp
      from less[OF this] obtain y where
        "balance_loop html (depth + 1) (nat (str_find html ''>'' pos + 1))
           (result @ [slice html pos (nat (str_find html ''>'' pos + 1))]) = Some y" by blast
      with True Some show ?thesis by (subst balance_loop.simps) simp
    next
      case None
      show ?thesis
      proof (cases "re_match False close_div_re (drop pos html)")
        case cn: None
        from True have "length html - (pos + 1) < length html - pos" by simp
        from less[OF this] obtain y where
          "balance_loop html depth (pos + 1) (result @ [[html ! pos]]) = Some y" by blast
        with True None cn show ?thesis by (subst balance_loop.simps) simp
      next
        case (Some cm)
        from close_match_shape[OF Some] have "0 < m_end cm" by auto
        with True have lt: "length html - (pos + m_end cm) < length html - pos" by simp
        show ?thesis
        proof (cases "0 < depth")
          case dp: True
          from less[OF lt] obtain y where
            "balance_loop html (depth - 1) (pos + m_end cm) (result @ [group cm 0]) = Some y"
            by blast
          with True None Some dp show ?thesis by (subst balance_loop.simps) simp
        next
          case dz: False
          from less[OF lt] obtain y where
            "balance_loop html depth (pos + m_end cm) result = Some y" by blast
          with True None Some dz show ?thesis by (subst balance_loop.simps) simp
        qed
      qed
    qed
  qed
qed

lemma balance_divs_None_iff: "balance_divs html = None \<longleftrightarrow> (\<exists>p. bad_open html p)"
proof
  assume n: "balance_divs html = None"
  show "\<exists>p. bad_open html p"
  proof (rule ccontr)
    assume "\<not> (\<exists>p. bad_open html p)"
    then have "\<And>p. \<not> bad_open html p" by simp
    from balance_loop_returns[OF this, of 0 0 "[]"] n show False
      by (auto simp add: balance_divs_def)
  qed
next
  assume "\<exists>p. bad_open html p"
  then show "balance_divs html = None" using balance_divs_diverges by blast
qed

text \<open>
  Claim C3 says that \<open>balance_divs\<close> terminates on every text, also when an opening tag is
  followed by white space and no \<^verbatim>\<open>>\<close> comes after it. On such a text the loop does not
  return: \<^verbatim>\<open>find\<close> gives \<open>-1\<close>, the position is set back to 0 and the scan reaches the same
  tag again, with nothing changed but the depth.
\<close>

theorem balance_divs_unclosed_open_tag:
  "balance_divs ''<div '' = None"
proof (cases "balance_loop ''<div '' 0 0 []")
  case None
  then show ?thesis by (simp add: balance_divs_def)
next
  case (Some y)
  have "bad_open ''<div '' 0" by (simp add: bad_open_def open_tag_iff is_space_def)
  from no_bad_open[OF Some this] show ?thesis by simp
qed

subsection \<open>The pieces of a run that returns\<close>

























end
